theory Spec2Isabelle
  imports Main "HOL-Library.Char_ord" "HOL-Library.List_Lexorder"
begin

section \<open>Python strings\<close>

text \<open>
  A Python \<open>str\<close> is modelled as a \<open>string\<close>; a \<open>char\<close> stands for the Unicode code
  point of the same number (U+0000 to U+00FF), and \<open>length\<close> counts code points as
  Python's \<open>len\<close> does. Text with code points beyond U+00FF is outside the model.
\<close>

definition code :: "char \<Rightarrow> nat" where
  "code c = of_char c"

text \<open>\<open>s.startswith(p)\<close>.\<close>

fun startswith :: "string \<Rightarrow> string \<Rightarrow> bool" where
  "startswith s [] = True"
| "startswith [] (p # ps) = False"
| "startswith (c # cs) (p # ps) = (c = p \<and> startswith cs ps)"

text \<open>\<open>s.endswith(p)\<close>.\<close>

definition endswith :: "string \<Rightarrow> string \<Rightarrow> bool" where
  "endswith s p = startswith (rev s) (rev p)"

text \<open>\<open>s.find(sub)\<close>: the lowest index where \<open>sub\<close> occurs in \<open>s\<close>, or \<open>-1\<close>.\<close>

fun str_find :: "string \<Rightarrow> string \<Rightarrow> int" where
  "str_find [] sub = (if sub = [] then 0 else - 1)"
| "str_find (c # cs) sub =
     (if startswith (c # cs) sub then 0
      else (let r = str_find cs sub in if r = - 1 then - 1 else r + 1))"

text \<open>\<open>s.split("\n")\<close>: the pieces between line feeds; never an empty list.\<close>

fun split_nl :: "string \<Rightarrow> string list" where
  "split_nl [] = [[]]"
| "split_nl (c # cs) =
     (if c = CHR 0x0A then [] # split_nl cs
      else (case split_nl cs of [] \<Rightarrow> [[c]] | l # ls \<Rightarrow> (c # l) # ls))"

text \<open>The slices \<open>s[:k]\<close> and \<open>s[k:]\<close> for an integer \<open>k\<close>; a negative \<open>k\<close> counts from the end.\<close>

definition slice_to :: "string \<Rightarrow> int \<Rightarrow> string" where
  "slice_to s k = (if k < 0 then take (nat (int (length s) + k)) s else take (nat k) s)"

definition slice_from :: "string \<Rightarrow> int \<Rightarrow> string" where
  "slice_from s k = (if k < 0 then drop (nat (int (length s) + k)) s else drop (nat k) s)"

section \<open>Regular expression character classes\<close>

text \<open>
  The classes of Python's \<open>re\<close> on \<open>str\<close> patterns are the Unicode ones. On the code points
  up to U+00FF, \<open>\d\<close> is \<open>0-9\<close>, and \<open>\w\<close> is \<open>[A-Za-z0-9_]\<close> together with the letters and
  numeric characters of Latin-1: U+00AA, U+00B2, U+00B3, U+00B5, U+00B9, U+00BA,
  U+00BC to U+00BE, U+00C0 to U+00D6, U+00D8 to U+00F6, U+00F8 to U+00FF.
\<close>

definition is_digit :: "char \<Rightarrow> bool" where
  "is_digit c = (48 \<le> code c \<and> code c \<le> 57)"

definition is_ascii_word :: "char \<Rightarrow> bool" where
  "is_ascii_word c =
     ((48 \<le> code c \<and> code c \<le> 57) \<or> (65 \<le> code c \<and> code c \<le> 90)
      \<or> code c = 95 \<or> (97 \<le> code c \<and> code c \<le> 122))"

definition is_word :: "char \<Rightarrow> bool" where
  "is_word c =
     (is_ascii_word c
      \<or> code c = 170 \<or> code c = 178 \<or> code c = 179 \<or> code c = 181
      \<or> code c = 185 \<or> code c = 186 \<or> (188 \<le> code c \<and> code c \<le> 190)
      \<or> (192 \<le> code c \<and> code c \<le> 214) \<or> (216 \<le> code c \<and> code c \<le> 246)
      \<or> 248 \<le> code c)"

text \<open>\<open>re.sub(r"\d+", "", group)\<close>: every run of digits is deleted.\<close>

definition remove_numbers :: "string \<Rightarrow> string" where
  "remove_numbers grp = filter (\<lambda>c. \<not> is_digit c) grp"

text \<open>\<open>re.sub(r"[^\w]", "_", group)\<close>: every character that is not a word character becomes \<open>_\<close>.\<close>

definition replace_non_word :: "string \<Rightarrow> string" where
  "replace_non_word grp = map (\<lambda>c. if is_word c then c else CHR ''_'') grp"

text \<open>
  \<open>next(re.finditer(pattern, s), None)\<close>: the match at the lowest start position. The
  argument \<open>m\<close> is the pattern anchored at the start of its input, returning group 1.
  The empty remainder is tried last, as \<open>re\<close> does.
\<close>

fun first_match :: "(string \<Rightarrow> string option) \<Rightarrow> string \<Rightarrow> string option" where
  "first_match m [] = m []"
| "first_match m (c # cs) =
     (case m (c # cs) of Some g \<Rightarrow> Some g | None \<Rightarrow> first_match m cs)"

text \<open>The first element of a list of lines on which \<open>f\<close> gives a result: the \<open>for line in lines\<close> loops.\<close>

fun first_line :: "(string \<Rightarrow> string option) \<Rightarrow> string list \<Rightarrow> string option" where
  "first_line f [] = None"
| "first_line f (l # ls) = (case f l of Some g \<Rightarrow> Some g | None \<Rightarrow> first_line f ls)"

section \<open>The patterns of the signature classifier\<close>

text \<open>
  Each pattern is written as the matcher anchored at one start position. In all of them
  but the last, a greedy repetition is followed by a character outside its class, so the
  longest run is the only candidate and \<open>takeWhile\<close> is the repetition.
\<close>

text \<open>\<open>PATTERN_SPIRV_OPT_ERROR = ^error: line \d+: ([\w .'\-\"]+)\<close>; \<open>^\<close> admits position 0 only.\<close>

definition is_spirv_opt_msg_char :: "char \<Rightarrow> bool" where
  "is_spirv_opt_msg_char c =
     (is_word c \<or> c = CHR '' '' \<or> c = CHR ''.'' \<or> c = CHR 0x27 \<or> c = CHR ''-'' \<or> c = CHR 0x22)"

definition match_spirv_opt_error :: "string \<Rightarrow> string option" where
  "match_spirv_opt_error line =
     (if startswith line ''error: line '' then
        (let r = drop 12 line; ds = takeWhile is_digit r; r2 = dropWhile is_digit r in
         if ds \<noteq> [] \<and> startswith r2 '': '' then
           (let g = takeWhile is_spirv_opt_msg_char (drop 2 r2) in
            if g \<noteq> [] then Some g else None)
         else None)
      else None)"

text \<open>\<open>PATTERN_AMBER_ERROR = \w: \d+: ([\w ]+)$\<close>; a line holds no line feed, so \<open>$\<close> is its end.\<close>

definition is_word_or_space :: "char \<Rightarrow> bool" where
  "is_word_or_space c = (is_word c \<or> c = CHR '' '')"

definition match_amber_error_at :: "string \<Rightarrow> string option" where
  "match_amber_error_at s =
     (case s of
        [] \<Rightarrow> None
      | c # r \<Rightarrow>
          if is_word c \<and> startswith r '': '' then
            (let r1 = drop 2 r; ds = takeWhile is_digit r1; r2 = dropWhile is_digit r1 in
             if ds \<noteq> [] \<and> startswith r2 '': '' then
               (let g = drop 2 r2 in
                if g \<noteq> [] \<and> list_all is_word_or_space g then Some g else None)
             else None)
          else None)"

text \<open>\<open>PATTERN_GLSLANG_ERROR = \w+:\d+: '([\w ]+)'\<close>.\<close>

definition match_glslang_error_at :: "string \<Rightarrow> string option" where
  "match_glslang_error_at s =
     (let ws = takeWhile is_word s; r = dropWhile is_word s in
      if ws \<noteq> [] \<and> startswith r '':'' then
        (let r1 = drop 1 r; ds = takeWhile is_digit r1; r2 = dropWhile is_digit r1 in
         if ds \<noteq> [] \<and> startswith r2 [CHR '':'', CHR '' '', CHR 0x27] then
           (let r3 = drop 3 r2; g = takeWhile is_word_or_space r3;
                r4 = dropWhile is_word_or_space r3 in
            if g \<noteq> [] \<and> startswith r4 [CHR 0x27] then Some g else None)
         else None)
      else None)"

text \<open>\<open>PATTERN_CPP_FUNCTION = ::(\w+)\(\<close>.\<close>

definition match_cpp_function_at :: "string \<Rightarrow> string option" where
  "match_cpp_function_at s =
     (if startswith s ''::'' then
        (let r = drop 2 s; g = takeWhile is_word r; r2 = dropWhile is_word r in
         if g \<noteq> [] \<and> startswith r2 ''('' then Some g else None)
      else None)"

text \<open>\<open>PATTERN_C_FUNCTION = \((\w+)(\+\d+\)|\()\<close>.\<close>

definition match_c_function_at :: "string \<Rightarrow> string option" where
  "match_c_function_at s =
     (if startswith s ''('' then
        (let r = drop 1 s; g = takeWhile is_word r; r2 = dropWhile is_word r in
         if g \<noteq> [] then
           (if startswith r2 ''+'' then
              (let r3 = drop 1 r2; ds = takeWhile is_digit r3; r4 = dropWhile is_digit r3 in
               if ds \<noteq> [] \<and> startswith r4 '')'' then Some g else None)
            else if startswith r2 ''('' then Some g
            else None)
         else None)
      else None)"

text \<open>
  \<open>PATTERN_CATCHSEGV_STACK_FRAME = Backtrace:\n.*/([^/(]*\([^)+]+)\+\<close>.
  \<open>frame_tail\<close> is the part from the \<open>/\<close> on. The two negated classes also match line
  feeds; each is followed by a character outside its class, so it takes its longest run.
\<close>

definition frame_tail :: "string \<Rightarrow> string option" where
  "frame_tail t =
     (if startswith t ''/'' then
        (let u = drop 1 t;
             a = takeWhile (\<lambda>c. c \<noteq> CHR ''/'' \<and> c \<noteq> CHR ''('') u;
             v = dropWhile (\<lambda>c. c \<noteq> CHR ''/'' \<and> c \<noteq> CHR ''('') u in
         if startswith v ''('' then
           (let x = drop 1 v;
                b = takeWhile (\<lambda>c. c \<noteq> CHR '')'' \<and> c \<noteq> CHR ''+'') x;
                y = dropWhile (\<lambda>c. c \<noteq> CHR '')'' \<and> c \<noteq> CHR ''+'') x in
            if b \<noteq> [] \<and> startswith y ''+'' then Some (a @ CHR ''('' # b) else None)
         else None)
      else None)"

text \<open>
  The greedy \<open>.*\<close> first takes the rest of the line (\<open>.\<close> matches anything but a line feed)
  and gives characters back one at a time: \<open>dot_star rest k\<close> tries the lengths
  \<open>k\<close>, \<open>k - 1\<close>, ..., \<open>0\<close> in this order.
\<close>

fun dot_star :: "string \<Rightarrow> nat \<Rightarrow> string option" where
  "dot_star rest 0 = frame_tail rest"
| "dot_star rest (Suc k) =
     (case frame_tail (drop (Suc k) rest) of
        Some g \<Rightarrow> Some g
      | None \<Rightarrow> dot_star rest k)"

definition match_catchsegv_at :: "string \<Rightarrow> string option" where
  "match_catchsegv_at s =
     (if startswith s (''Backtrace:'' @ [CHR 0x0A]) then
        (let rest = drop 11 s in
         dot_star rest (length (takeWhile (\<lambda>c. c \<noteq> CHR 0x0A) rest)))
      else None)"

section \<open>The signature classifier\<close>

text \<open>
  Rules 5 to 9 of the cascade, each as the value it returns, or \<open>None\<close> when control
  falls through to the next rule. The \<open>if match:\<close> tests are on match objects, which are
  always true.
\<close>

definition spirv_opt_line :: "string \<Rightarrow> string option" where
  "spirv_opt_line line =
     (case match_spirv_opt_error line of
        Some grp \<Rightarrow> Some (slice_to (replace_non_word (remove_numbers grp)) 20)
      | None \<Rightarrow> None)"

definition rule_spirv_opt :: "string \<Rightarrow> string option" where
  "rule_spirv_opt log_contents =
     (if str_find log_contents ''error: line '' \<noteq> - 1
      then first_line spirv_opt_line (split_nl log_contents) else None)"

definition amber_line :: "string \<Rightarrow> string option" where
  "amber_line line =
     (case first_match match_amber_error_at line of
        Some grp \<Rightarrow> Some (replace_non_word (remove_numbers grp))
      | None \<Rightarrow> None)"

definition rule_amber :: "string \<Rightarrow> string option" where
  "rule_amber log_contents =
     (if str_find log_contents ''0 pass, 1 fail'' \<noteq> - 1
      then first_line amber_line (split_nl log_contents) else None)"

definition glslang_line :: "string \<Rightarrow> string option" where
  "glslang_line line =
     (case first_match match_glslang_error_at line of
        Some grp \<Rightarrow> Some (replace_non_word (remove_numbers grp))
      | None \<Rightarrow> None)"

definition rule_glslang :: "string \<Rightarrow> string option" where
  "rule_glslang log_contents =
     (if str_find log_contents ''SPIR-V is not generated for failed compile or link'' \<noteq> - 1
      then first_line glslang_line (split_nl log_contents) else None)"

text \<open>
  The loop of rule \<open>"#00 pc"\<close>: lines without the marker are skipped (\<open>continue\<close>); the first
  line with it decides, and the loop is left (\<open>break\<close>) when nothing matches in it.
\<close>

fun pc_lines :: "string list \<Rightarrow> string option" where
  "pc_lines [] = None"
| "pc_lines (line # ls) =
     (let pc_pos = str_find line ''#00 pc'' in
      if pc_pos = - 1 then pc_lines ls
      else
        (let line' = slice_from line pc_pos in
         if str_find line' ''/amber_ndk'' \<noteq> - 1 then Some ''amber_ndk''
         else
           (case first_match match_cpp_function_at line' of
              Some g \<Rightarrow> Some g
            | None \<Rightarrow>
                (case first_match match_c_function_at line' of
                   Some g \<Rightarrow> Some g
                 | None \<Rightarrow> None))))"

definition rule_pc :: "string \<Rightarrow> string option" where
  "rule_pc log_contents =
     (if str_find log_contents ''#00 pc'' \<noteq> - 1
      then pc_lines (split_nl log_contents) else None)"

definition rule_catchsegv :: "string \<Rightarrow> string option" where
  "rule_catchsegv log_contents =
     (if str_find log_contents ''Backtrace:'' \<noteq> - 1 then
        (case first_match match_catchsegv_at log_contents of
           Some grp \<Rightarrow> Some (slice_to (replace_non_word grp) 50)
         | None \<Rightarrow> None)
      else None)"

definition get_signature_from_log_contents :: "string \<Rightarrow> string" where
  "get_signature_from_log_contents log_contents =
     (if str_find log_contents ''Shader compilation failed'' \<noteq> - 1 then ''compile_error''
      else if str_find log_contents ''Failed to link shaders'' \<noteq> - 1 then ''link_error''
      else if str_find log_contents ''Calling vkCreateGraphicsPipelines Fail'' \<noteq> - 1
        then ''pipeline_failure''
      else if str_find log_contents ''Resource deadlock would occur'' \<noteq> - 1
        then ''Resource_deadlock_would_occur''
      else
        (case rule_spirv_opt log_contents of Some g \<Rightarrow> g | None \<Rightarrow>
        (case rule_amber log_contents of Some g \<Rightarrow> g | None \<Rightarrow>
        (case rule_glslang log_contents of Some g \<Rightarrow> g | None \<Rightarrow>
        (case rule_pc log_contents of Some g \<Rightarrow> g | None \<Rightarrow>
        (case rule_catchsegv log_contents of Some g \<Rightarrow> g | None \<Rightarrow>
         ''no_signature''))))))"

text \<open>The pattern \<open>^[A-Za-z0-9_]{1,50}$\<close>.\<close>

definition valid_signature :: "string \<Rightarrow> bool" where
  "valid_signature s \<longleftrightarrow> s \<noteq> [] \<and> list_all is_ascii_word s \<and> length s \<le> 50"

text \<open>
  Every character of \<open>g\<close> is a word character, and is a character of the log \<open>L\<close> or one
  of \<open>[A-Za-z0-9_]\<close>.
\<close>

definition result_ok :: "string \<Rightarrow> string \<Rightarrow> bool" where
  "result_ok L g \<longleftrightarrow> (\<forall>c \<in> set g. is_word c \<and> (c \<in> set L \<or> is_ascii_word c))"

text \<open>
  The rule of the cascade that returns, numbered in the order of the source: 1 to 4 the
  four constant rules, 5 the spirv-opt rule, 6 the Amber rule, 7 the glslang rule, 8 the
  \<open>#00 pc\<close> rule, 9 the catchsegv rule, 10 the final \<open>no_signature\<close>.
\<close>

definition answering_rule :: "string \<Rightarrow> nat" where
  "answering_rule log_contents =
     (if str_find log_contents ''Shader compilation failed'' \<noteq> - 1 then 1
      else if str_find log_contents ''Failed to link shaders'' \<noteq> - 1 then 2
      else if str_find log_contents ''Calling vkCreateGraphicsPipelines Fail'' \<noteq> - 1 then 3
      else if str_find log_contents ''Resource deadlock would occur'' \<noteq> - 1 then 4
      else if rule_spirv_opt log_contents \<noteq> None then 5
      else if rule_amber log_contents \<noteq> None then 6
      else if rule_glslang log_contents \<noteq> None then 7
      else if rule_pc log_contents \<noteq> None then 8
      else if rule_catchsegv log_contents \<noteq> None then 9
      else 10)"

text \<open>
  The message (group 1) that the loop of rule 5, 6 or 7 finds in the first line with a
  match, before it is normalised; \<open>matched_message\<close> is the one of the rule that returns.
\<close>

definition spirv_opt_message :: "string \<Rightarrow> string option" where
  "spirv_opt_message log_contents =
     (if str_find log_contents ''error: line '' \<noteq> - 1
      then first_line match_spirv_opt_error (split_nl log_contents) else None)"

definition amber_message :: "string \<Rightarrow> string option" where
  "amber_message log_contents =
     (if str_find log_contents ''0 pass, 1 fail'' \<noteq> - 1
      then first_line (first_match match_amber_error_at) (split_nl log_contents) else None)"

definition glslang_message :: "string \<Rightarrow> string option" where
  "glslang_message log_contents =
     (if str_find log_contents ''SPIR-V is not generated for failed compile or link'' \<noteq> - 1
      then first_line (first_match match_glslang_error_at) (split_nl log_contents) else None)"

definition matched_message :: "string \<Rightarrow> string option" where
  "matched_message log_contents =
     (if answering_rule log_contents = 5 then spirv_opt_message log_contents
      else if answering_rule log_contents = 6 then amber_message log_contents
      else if answering_rule log_contents = 7 then glslang_message log_contents
      else None)"

text \<open>The rule that returns matched a message, and the message has digits only.\<close>

definition digits_only_message :: "string \<Rightarrow> bool" where
  "digits_only_message log_contents =
     (case matched_message log_contents of None \<Rightarrow> False | Some m \<Rightarrow> list_all is_digit m)"

section \<open>Binaries and the binary manager\<close>

text \<open>
  The \<open>Binary\<close> message, with the fields that \<open>binaries_util.py\<close> reads and writes, and
  the \<open>ArchiveSet\<close> message with its list of binaries (its archives are not read by the
  functions below).
\<close>

record binary =
  name :: string
  tags :: "string list"
  path :: string
  version :: string

record archive_set =
  binaries :: "binary list"

datatype error =
    AssertionError
  | SubprocessError
  | BinaryNotFound
  | BinaryPathNotFound binary

text \<open>
  \<open>BinaryManager\<close>: the override list, the cache of resolved paths (keyed by the
  serialized descriptor, here the descriptor itself), the platform, and the catalog of
  archive sets, each with its artifact path.
\<close>

record binary_manager =
  binary_list :: "binary list"
  resolved_paths :: "binary \<rightharpoonup> string"
  platform :: string
  binary_artifacts :: "(archive_set \<times> string) list"

record binary_path_and_info =
  info_path :: string
  info_binary :: binary

text \<open>
  The inner loop of \<open>get_binary_path\<close> over the binaries of one archive set: the three
  \<open>continue\<close> tests in the order of the source, then the first binary that passes them.
\<close>

fun find_artifact_binary :: "binary \<Rightarrow> string set \<Rightarrow> binary list \<Rightarrow> binary option" where
  "find_artifact_binary b binary_tags [] = None"
| "find_artifact_binary b binary_tags (artifact_binary # rest) =
     (if name artifact_binary \<noteq> name b then find_artifact_binary b binary_tags rest
      else if version artifact_binary \<noteq> version b then find_artifact_binary b binary_tags rest
      else if \<not> binary_tags \<subseteq> set (tags artifact_binary)
        then find_artifact_binary b binary_tags rest
      else Some artifact_binary)"

text \<open>The outer loop over the catalog.\<close>

fun find_in_artifacts ::
  "binary \<Rightarrow> string set \<Rightarrow> (archive_set \<times> string) list \<Rightarrow> (binary \<times> string) option" where
  "find_in_artifacts b binary_tags [] = None"
| "find_in_artifacts b binary_tags ((archive_set, artifact_path) # rest) =
     (case find_artifact_binary b binary_tags (binaries archive_set) of
        Some artifact_binary \<Rightarrow> Some (artifact_binary, artifact_path)
      | None \<Rightarrow> find_in_artifacts b binary_tags rest)"

text \<open>
  \<open>BinaryManager.get_binary_path\<close>. The parameter \<open>inner_file_path\<close> stands for
  \<open>artifact_util.artifact_get_inner_file_path\<close>, which is not among the sources; the
  call of \<open>artifact_execute_recipe_if_needed\<close> acts on the file system only and is taken
  to return. A cached \<open>Path\<close> is always true in \<open>if result\<close>.
\<close>

definition get_binary_path ::
  "(string \<Rightarrow> string \<Rightarrow> string) \<Rightarrow> binary_manager \<Rightarrow> binary
     \<Rightarrow> (error + string) \<times> binary_manager" where
  "get_binary_path inner_file_path m b =
     (case resolved_paths m b of
        Some result \<Rightarrow> (Inr result, m)
      | None \<Rightarrow>
          (let binary_tags = set (tags b) \<union> {platform m} in
           case find_in_artifacts b binary_tags (binary_artifacts m) of
             Some (artifact_binary, artifact_path) \<Rightarrow>
               (let result = inner_file_path (path artifact_binary) artifact_path in
                (Inr result, m\<lparr>resolved_paths := (resolved_paths m)(b \<mapsto> result)\<rparr>))
           | None \<Rightarrow> (Inl (BinaryPathNotFound b), m)))"

fun get_binary_by_name_from_list :: "string \<Rightarrow> binary list \<Rightarrow> error + binary" where
  "get_binary_by_name_from_list nm [] = Inl BinaryNotFound"
| "get_binary_by_name_from_list nm (b # rest) =
     (if name b = nm then Inr b else get_binary_by_name_from_list nm rest)"

definition get_binary_by_name :: "binary_manager \<Rightarrow> string \<Rightarrow> error + binary" where
  "get_binary_by_name m nm = get_binary_by_name_from_list nm (binary_list m)"

definition get_binary_path_by_name ::
  "(string \<Rightarrow> string \<Rightarrow> string) \<Rightarrow> binary_manager \<Rightarrow> string
     \<Rightarrow> (error + binary_path_and_info) \<times> binary_manager" where
  "get_binary_path_by_name inner_file_path m nm =
     (case get_binary_by_name m nm of
        Inl e \<Rightarrow> (Inl e, m)
      | Inr b \<Rightarrow>
          (case get_binary_path inner_file_path m b of
             (Inl e, m') \<Rightarrow> (Inl e, m')
           | (Inr p, m') \<Rightarrow> (Inr \<lparr>info_path = p, info_binary = b\<rparr>, m')))"

text \<open>
  \<open>get_child_binary_manager\<close>: the new overrides before the old ones, the same platform,
  cache and catalog. (In the source the child shares the cache object with its parent;
  here it starts from the parent's cache.)
\<close>

definition get_child_binary_manager :: "binary_manager \<Rightarrow> binary list \<Rightarrow> binary_manager" where
  "get_child_binary_manager m bl = m\<lparr>binary_list := bl @ binary_list m\<rparr>"

text \<open>A new manager has an empty cache, as \<open>__init__\<close> sets it.\<close>

definition new_binary_manager ::
  "binary list \<Rightarrow> string \<Rightarrow> (archive_set \<times> string) list \<Rightarrow> binary_manager" where
  "new_binary_manager bl pf arts =
     \<lparr>binary_list = bl, resolved_paths = Map.empty, platform = pf, binary_artifacts = arts\<rparr>"

text \<open>
  The managers that a program can hold: a new one, one after a call of
  \<open>get_binary_path\<close>, and a child of one.
\<close>

inductive reachable :: "(string \<Rightarrow> string \<Rightarrow> string) \<Rightarrow> binary_manager \<Rightarrow> bool"
  for inner_file_path :: "string \<Rightarrow> string \<Rightarrow> string" where
  reachable_new: "reachable inner_file_path (new_binary_manager bl pf arts)"
| reachable_get:
    "reachable inner_file_path m \<Longrightarrow>
       reachable inner_file_path (snd (get_binary_path inner_file_path m b))"
| reachable_child:
    "reachable inner_file_path m \<Longrightarrow>
       reachable inner_file_path (get_child_binary_manager m bl)"

subsection \<open>The resolution as the specification words it\<close>

text \<open>
  A catalog binary \<open>B\<close> answers a descriptor \<open>D\<close> when the names and the versions are
  equal and the tags of \<open>D\<close> with the current platform are among the tags of \<open>B\<close>.
\<close>

definition answers :: "string \<Rightarrow> binary \<Rightarrow> binary \<Rightarrow> bool" where
  "answers pf D B \<longleftrightarrow>
     name B = name D \<and> version B = version D \<and> set (tags D) \<union> {pf} \<subseteq> set (tags B)"

text \<open>The binaries of the catalog in catalog order, each with the artifact path of its archive set.\<close>

definition catalog_binaries :: "(archive_set \<times> string) list \<Rightarrow> (binary \<times> string) list" where
  "catalog_binaries arts =
     concat (map (\<lambda>(archive_set, artifact_path).
                    map (\<lambda>B. (B, artifact_path)) (binaries archive_set)) arts)"

definition first_catalog_match :: "binary_manager \<Rightarrow> binary \<Rightarrow> (binary \<times> string) option" where
  "first_catalog_match m D =
     List.find (\<lambda>(B, artifact_path). answers (platform m) D B)
       (catalog_binaries (binary_artifacts m))"

definition resolution ::
  "(string \<Rightarrow> string \<Rightarrow> string) \<Rightarrow> binary_manager \<Rightarrow> binary \<Rightarrow> error + string" where
  "resolution inner_file_path m D =
     (case first_catalog_match m D of
        Some (B, artifact_path) \<Rightarrow> Inr (inner_file_path (path B) artifact_path)
      | None \<Rightarrow> Inl (BinaryPathNotFound D))"

text \<open>Every cached path is the one that the scan of the catalog gives for its descriptor.\<close>

definition cache_consistent :: "(string \<Rightarrow> string \<Rightarrow> string) \<Rightarrow> binary_manager \<Rightarrow> bool" where
  "cache_consistent inner_file_path m \<longleftrightarrow>
     (\<forall>b p. resolved_paths m b = Some p \<longrightarrow> resolution inner_file_path m b = Inr p)"

section \<open>Running a shader job\<close>

text \<open>
  Modelled from the spec: the \<open>Device\<close> message (\<open>device.proto\<close> is not among the sources),
  a name and at most one of the kinds preprocess, swift_shader, host and android.
  \<open>HasField\<close> tells whether the device is of a kind.
\<close>

datatype device_kind = Preprocess | Swift_shader | Host | Android

record device =
  device_name :: string
  kind :: "device_kind option"

definition HasField :: "device \<Rightarrow> device_kind \<Rightarrow> bool" where
  "HasField d k = (kind d = Some k)"

text \<open>\<open>a / b\<close> on paths.\<close>

definition path_join :: "string \<Rightarrow> string \<Rightarrow> string" where
  "path_join a b = a @ ''/'' @ b"

text \<open>
  What \<open>run_shader_job\<close> does to the outside, in order. \<open>Run_amber\<close> is
  \<open>host_device_util.run_amber\<close> with its script, output directory, \<open>dump_image\<close>,
  \<open>dump_buffer\<close> and \<open>icd\<close>; \<open>Run_amber_on_device\<close> is the runner of \<open>android_device\<close>.
\<close>

datatype action =
    Push_stream_for_logging string
  | Pop_stream_for_logging
  | File_write_text string string
  | Run_amber string string bool bool "string option"
  | Run_amber_on_device string string bool bool
  | Log_a_file string

definition result_get_amber_log_path :: "string \<Rightarrow> string" where
  "result_get_amber_log_path result_dir = path_join result_dir ''amber_log.txt''"

text \<open>
  \<open>run_shader_job\<close>. The outcome of \<open>glsl_shader_job_to_amber_script\<close> is the parameter
  \<open>conversion\<close> (the script file, or the exception it raises), and \<open>is_compute\<close> is what
  \<open>shader_job_get_related_files\<close> finds; the two Amber runners are taken to return.
  The result is the returned directory, or the exception that leaves the function, and
  the actions done; the \<open>finally\<close> clause pops the stream on every way out.
\<close>

definition run_shader_job ::
  "string \<Rightarrow> (error + string) \<Rightarrow> bool \<Rightarrow> device \<Rightarrow> (error + string) \<times> action list" where
  "run_shader_job output_dir conversion is_compute dev =
     (case conversion of
        Inl e \<Rightarrow>
          if e = SubprocessError then
            (Inr output_dir,
             [Push_stream_for_logging (path_join output_dir ''log.txt''),
              File_write_text (path_join output_dir ''STATUS'') ''HOST_CRASH'',
              Pop_stream_for_logging])
          else
            (Inl e,
             [Push_stream_for_logging (path_join output_dir ''log.txt''),
              Pop_stream_for_logging])
      | Inr amber_script_file \<Rightarrow>
          if HasField dev Preprocess then
            (Inr output_dir,
             [Push_stream_for_logging (path_join output_dir ''log.txt''),
              File_write_text (path_join output_dir ''STATUS'') ''SUCCESS'',
              Pop_stream_for_logging])
          else
            (Inr output_dir,
             [Push_stream_for_logging (path_join output_dir ''log.txt'')]
             @ (if HasField dev Host \<or> HasField dev Swift_shader
                then [Run_amber amber_script_file output_dir (\<not> is_compute) is_compute None]
                else [])
             @ [Run_amber_on_device amber_script_file output_dir (\<not> is_compute) is_compute,
                Log_a_file (result_get_amber_log_path output_dir),
                Pop_stream_for_logging]))"

section \<open>The fuzzing loop\<close>

text \<open>
  The six sibling test directories of one iteration, in the order in which \<open>main\<close>
  builds the list \<open>test_dirs\<close>.
\<close>

definition test_dirs :: "string \<Rightarrow> string \<Rightarrow> string list" where
  "test_dirs test_dir test_name =
     [path_join test_dir (test_name @ ''_no_opt_test''),
      path_join test_dir (test_name @ ''_opt_O_test''),
      path_join test_dir (test_name @ ''_opt_Os_test''),
      path_join test_dir (test_name @ ''_opt_rand1_test''),
      path_join test_dir (test_name @ ''_opt_rand2_test''),
      path_join test_dir (test_name @ ''_opt_rand3_test'')]"

text \<open>
  The loop \<open>for test_dir in test_dirs: if handle_test(...): break\<close>. \<open>handle_test\<close> works
  on the file system and the devices, so it is a parameter that takes the state of the
  world \<open>w\<close> and returns the report paths, or the exception it raises, with the new
  state. The loop returns the calls of \<open>handle_test\<close> it made, each with its directory
  and what it returned, in order. A nonempty list is true in \<open>if\<close>; an exception leaves
  \<open>main\<close>.
\<close>

fun handle_tests ::
  "(string \<Rightarrow> 'w \<Rightarrow> (error + string list) \<times> 'w) \<Rightarrow> string list \<Rightarrow> 'w
     \<Rightarrow> (string \<times> (error + string list)) list \<times> 'w" where
  "handle_tests handle_test [] w = ([], w)"
| "handle_tests handle_test (test_dir # rest) w =
     (case handle_test test_dir w of
        (Inl e, w') \<Rightarrow> ([(test_dir, Inl e)], w')
      | (Inr report_paths, w') \<Rightarrow>
          if report_paths \<noteq> [] then ([(test_dir, Inr report_paths)], w')
          else
            (case handle_tests handle_test rest w' of
               (calls, w'') \<Rightarrow> ((test_dir, Inr report_paths) # calls, w'')))"

text \<open>A call that returned a nonempty list of report paths.\<close>

definition reported :: "error + string list \<Rightarrow> bool" where
  "reported r = (case r of Inl e \<Rightarrow> False | Inr report_paths \<Rightarrow> report_paths \<noteq> [])"

section \<open>Adding a test to a must-pass file\<close>

text \<open>
  The must-pass file is opened in text mode with the default \<open>newline\<close>, so what the
  program reads is the text of the file with every \<open>\r\n\<close> and every other \<open>\r\<close> turned
  into a line feed. The text written is the text of the new file (on a system whose line
  separator is the line feed).
\<close>

fun read_text :: "string \<Rightarrow> string" where
  "read_text [] = []"
| "read_text [c] = (if c = CHR 0x0D then [CHR 0x0A] else [c])"
| "read_text (c # d # ds) =
     (if c = CHR 0x0D then
        (if d = CHR 0x0A then CHR 0x0A # read_text ds else CHR 0x0A # read_text (d # ds))
      else c # read_text (d # ds))"

text \<open>
  The lines that iterating over a text file yields: each ends with its line feed, but for
  a last line that the text leaves unterminated.
\<close>

fun file_lines :: "string \<Rightarrow> string list" where
  "file_lines [] = []"
| "file_lines (c # cs) =
     (if c = CHR 0x0A then [c] # file_lines cs
      else (case file_lines cs of [] \<Rightarrow> [[c]] | l # ls \<Rightarrow> (c # l) # ls))"

definition is_graphicsfuzz_line :: "string \<Rightarrow> bool" where
  "is_graphicsfuzz_line line = startswith line ''dEQP-VK.graphicsfuzz.''"

text \<open>
  The first loop, \<open>for line in pass_in\<close>: lines are written until one starts with
  \<open>dEQP-VK.graphicsfuzz.\<close>. The result is the value of \<open>line\<close> after the loop (the line
  that stopped it, or the last line read when none did, or the initial value for an empty
  file), the lines not yet read, and the lines written.
\<close>

fun first_loop :: "string \<Rightarrow> string list \<Rightarrow> string \<times> string list \<times> string list" where
  "first_loop line [] = (line, [], [])"
| "first_loop line (l # pass_in) =
     (if is_graphicsfuzz_line l then (l, pass_in, [])
      else (case first_loop l pass_in of (line', rest, out) \<Rightarrow> (line', rest, l # out)))"

text \<open>
  The second loop, \<open>while True\<close>: it stops when \<open>line\<close> is empty or not below
  \<open>line_to_write\<close> in the order of strings (by code point); otherwise it writes \<open>line\<close> and
  reads the next line with \<open>readline\<close>, which gives the empty string at the end of the
  file, where the loop then stops.
\<close>

fun second_loop ::
  "string \<Rightarrow> string \<Rightarrow> string list \<Rightarrow> string \<times> string list \<times> string list" where
  "second_loop to_write line [] =
     (if line = [] \<or> to_write \<le> line then (line, [], []) else ([], [], [line]))"
| "second_loop to_write line (l # pass_in) =
     (if line = [] \<or> to_write \<le> line then (line, l # pass_in, [])
      else (case second_loop to_write l pass_in of
              (line', rest, out) \<Rightarrow> (line', rest, line # out)))"

text \<open>All the strings that the function writes to the new file, in order.\<close>

definition must_pass_writes :: "string \<Rightarrow> string list \<Rightarrow> string list" where
  "must_pass_writes to_write pass_in =
     (case first_loop [] pass_in of
        (line, pass_in1, out1) \<Rightarrow>
          (case second_loop to_write line pass_in1 of
             (line2, pass_in2, out2) \<Rightarrow>
               out1 @ out2 @ (if line2 \<noteq> to_write then [to_write] else [])
                 @ [line2] @ pass_in2))"

definition line_to_write :: "string \<Rightarrow> string" where
  "line_to_write amber_test_name = ''dEQP-VK.graphicsfuzz.'' @ amber_test_name @ [CHR 0x0A]"

text \<open>\<open>add_amber_test_to_must_pass\<close>, from the text of the file to the text of the new file.\<close>

definition add_amber_test_to_must_pass :: "string \<Rightarrow> string \<Rightarrow> string" where
  "add_amber_test_to_must_pass amber_test_name content =
     concat (must_pass_writes (line_to_write amber_test_name) (file_lines (read_text content)))"


subsection \<open>The insertion as the claim words it\<close>



text \<open>The line \<open>w\<close> is at its position in \<open>S\<close>: the first line of \<open>S\<close> that is not below \<open>w\<close> is \<open>w\<close>.\<close>

definition line_at_position :: "string \<Rightarrow> string list \<Rightarrow> bool" where
  "line_at_position w S =
     (case dropWhile (\<lambda>l. l < w) S of [] \<Rightarrow> False | c # rest \<Rightarrow> c = w)"

text \<open>
  \<open>S\<close> with the line \<open>w\<close>: \<open>S\<close> itself when \<open>w\<close> is at its position, and otherwise \<open>w\<close>
  inserted by \<open>insort\<close>, that is before the first line that is not below it, which is its
  sorted position when \<open>S\<close> is sorted.
\<close>

definition with_line :: "string \<Rightarrow> string list \<Rightarrow> string list" where
  "with_line w S = (if line_at_position w S then S else insort w S)"

section \<open>Utilities\<close>

text \<open>
  \<open>remove_end\<close> of \<open>util.py\<close>: the assertion that \<open>str_in\<close> ends with \<open>str_end\<close>, then the
  slice \<open>str_in[: -len(str_end)]\<close>.
\<close>

definition remove_end :: "string \<Rightarrow> string \<Rightarrow> error + string" where
  "remove_end str_in str_end =
     (if endswith str_in str_end then Inr (slice_to str_in (- int (length str_end)))
      else Inl AssertionError)"

section \<open>Facts about the string functions\<close>

lemma startswith_append: "startswith (p @ s) p"
  by (induction p) simp_all

lemma startswith_iff: "startswith s p \<longleftrightarrow> (\<exists>t. s = p @ t)"
proof (induction s p rule: startswith.induct)
  case (1 s)
  then show ?case by simp
next
  case (2 p ps)
  then show ?case by simp
next
  case (3 c cs p ps)
  then show ?case by auto
qed

lemma str_find_lower: "- 1 \<le> str_find s sub"
  by (induction s) (simp_all add: Let_def)

lemma str_find_occurs: "str_find (p @ sub @ t) sub \<noteq> - 1"
proof (induction p)
  case Nil
  show ?case
  proof (cases "sub @ t")
    case Nil
    then show ?thesis by simp
  next
    case (Cons c cs)
    have "startswith (sub @ t) sub" by (rule startswith_append)
    with Cons show ?thesis by simp
  qed
next
  case (Cons a p)
  have "- 1 \<le> str_find (p @ sub @ t) sub" by (rule str_find_lower)
  with Cons show ?case by (simp add: Let_def)
qed

lemma str_find_found: "str_find s sub \<noteq> - 1 \<Longrightarrow> \<exists>p t. s = p @ sub @ t"
proof (induction s)
  case Nil
  then show ?case by (simp split: if_splits)
next
  case (Cons c cs)
  show ?case
  proof (cases "startswith (c # cs) sub")
    case True
    then obtain t where "c # cs = sub @ t" by (auto simp: startswith_iff)
    then have "c # cs = [] @ sub @ t" by simp
    then show ?thesis by blast
  next
    case False
    with Cons.prems have "str_find cs sub \<noteq> - 1" by (simp add: Let_def split: if_splits)
    with Cons.IH obtain p t where "cs = p @ sub @ t" by blast
    then have "c # cs = (c # p) @ sub @ t" by simp
    then show ?thesis by blast
  qed
qed

section \<open>The signature classifier: concrete logs\<close>

text \<open>
  C5. The log \<open>error: line 0: Module contains unreachable blocks\<close> is classified as
  \<open>Module_contains_unre\<close>: the message after the line number, without digits, with
  every non-word character replaced by an underscore, cut to 20 characters.
\<close>

theorem spirv_opt_scenario:
  "get_signature_from_log_contents ''error: line 0: Module contains unreachable blocks''
     = ''Module_contains_unre''"
  by code_simp

text \<open>
  C2. The catchsegv log of the scenario is not classified as the 40 characters
  \<open>spirv_opt__ZN8spvtools3opt21StructuredCF\<close>.
\<close>

theorem catchsegv_scenario_counterexample:
  "get_signature_from_log_contents
     (''Backtrace:'' @ [CHR 0x0A]
        @ ''/path/spirv-opt(_ZN8spvtools3opt21StructuredCFGAnalysisXYZ+0x5)'')
     \<noteq> ''spirv_opt__ZN8spvtools3opt21StructuredCF''"
  by code_simp

text \<open>
  C2, as the code has it. The catchsegv log of the scenario is classified as the first
  50 characters of the frame \<open>spirv-opt(_ZN8spvtools3opt21StructuredCFGAnalysisXYZ\<close> with
  every non-word character replaced by an underscore, which is
  \<open>spirv_opt__ZN8spvtools3opt21StructuredCFGAnalysisX\<close>.
\<close>

theorem catchsegv_scenario:
  "get_signature_from_log_contents
     (''Backtrace:'' @ [CHR 0x0A]
        @ ''/path/spirv-opt(_ZN8spvtools3opt21StructuredCFGAnalysisXYZ+0x5)'')
     = ''spirv_opt__ZN8spvtools3opt21StructuredCFGAnalysisX''"
  by code_simp

section \<open>The signature classifier: the first rule\<close>

text \<open>
  C6. A log that contains \<open>Shader compilation failed\<close> anywhere is classified as
  \<open>compile_error\<close>, whatever else it contains: the first rule of the cascade wins.
\<close>

theorem compile_error_first:
  "log_contents = p @ ''Shader compilation failed'' @ t \<Longrightarrow>
     get_signature_from_log_contents log_contents = ''compile_error''"
  unfolding get_signature_from_log_contents_def
  using str_find_occurs [of p "''Shader compilation failed''" t] by simp

theorem compile_error_first_witness:
  "''Failed to link shaders; Shader compilation failed; Failed to link shaders''
     = ''Failed to link shaders; '' @ ''Shader compilation failed'' @ ''; Failed to link shaders''
   \<and> get_signature_from_log_contents
       ''Failed to link shaders; Shader compilation failed; Failed to link shaders''
     = ''compile_error''"
  using compile_error_first
    [of "''Failed to link shaders; Shader compilation failed; Failed to link shaders''"
        "''Failed to link shaders; ''" "''; Failed to link shaders''"]
  by simp

section \<open>Removing a suffix\<close>

text \<open>
  C10. For a nonempty suffix \<open>e\<close>, \<open>remove_end (s + e, e)\<close> returns \<open>s\<close>; for the empty
  suffix, \<open>remove_end (s, "")\<close> returns the empty string, not \<open>s\<close>.
\<close>

theorem remove_end_suffix:
  "(e \<noteq> [] \<longrightarrow> remove_end (s @ e) e = Inr s) \<and> remove_end s [] = Inr []"
proof
  show "e \<noteq> [] \<longrightarrow> remove_end (s @ e) e = Inr s"
  proof
    assume "e \<noteq> []"
    have "endswith (s @ e) e"
      unfolding endswith_def by (simp add: startswith_append)
    moreover from \<open>e \<noteq> []\<close> have "slice_to (s @ e) (- int (length e)) = s"
      by (simp add: slice_to_def)
    ultimately show "remove_end (s @ e) e = Inr s"
      by (simp add: remove_end_def)
  qed
next
  show "remove_end s [] = Inr []"
    by (simp add: remove_end_def endswith_def slice_to_def)
qed

theorem remove_end_suffix_witness:
  "''.json'' \<noteq> [] \<and> remove_end (''shader'' @ ''.json'') ''.json'' = Inr ''shader''
   \<and> remove_end ''shader'' [] = Inr []"
  using remove_end_suffix [of "''.json''" "''shader''"] by simp

section \<open>Running a shader job on a host device\<close>

text \<open>
  C3, on the code. For a host device and a graphics shader job whose conversion to an
  Amber script succeeded, \<open>run_shader_job\<close> runs Amber on the host and then also
  calls \<open>run_amber_on_device\<close>, the runner for Android devices.
\<close>

theorem run_shader_job_host_calls_device_runner:
  "snd (run_shader_job ''out'' (Inr ''out/test.amber'') False
          \<lparr>device_name = ''host'', kind = Some Host\<rparr>)
     = [Push_stream_for_logging ''out/log.txt'',
        Run_amber ''out/test.amber'' ''out'' True False None,
        Run_amber_on_device ''out/test.amber'' ''out'' True False,
        Log_a_file ''out/amber_log.txt'',
        Pop_stream_for_logging]"
  by (simp add: run_shader_job_def HasField_def path_join_def result_get_amber_log_path_def)

section \<open>The fuzzing loop stops at the first report\<close>

lemma handle_tests_order:
  "handle_tests handle_test dirs w = (calls, w') \<Longrightarrow> map fst calls = take (length calls) dirs"
proof (induction dirs arbitrary: w calls w')
  case Nil
  then show ?case by simp
next
  case (Cons d dirs)
  obtain r w1 where h: "handle_test d w = (r, w1)" by (cases "handle_test d w")
  show ?case
  proof (cases r)
    case (Inl e)
    with Cons.prems h show ?thesis by auto
  next
    case (Inr report_paths)
    show ?thesis
    proof (cases "report_paths = []")
      case False
      with Cons.prems h Inr show ?thesis by auto
    next
      case True
      obtain calls1 w2 where rec: "handle_tests handle_test dirs w1 = (calls1, w2)"
        by (cases "handle_tests handle_test dirs w1")
      from Cons.IH [OF rec] have "map fst calls1 = take (length calls1) dirs" .
      with Cons.prems h Inr True rec show ?thesis by auto
    qed
  qed
qed

lemma handle_tests_stop:
  "handle_tests handle_test dirs w = (calls, w') \<Longrightarrow> Suc i < length calls \<Longrightarrow>
     snd (calls ! i) = Inr []"
proof (induction dirs arbitrary: w calls w' i)
  case Nil
  then show ?case by simp
next
  case (Cons d dirs)
  obtain r w1 where h: "handle_test d w = (r, w1)" by (cases "handle_test d w")
  show ?case
  proof (cases r)
    case (Inl e)
    with Cons.prems h show ?thesis by auto
  next
    case (Inr report_paths)
    show ?thesis
    proof (cases "report_paths = []")
      case False
      with Cons.prems h Inr show ?thesis by auto
    next
      case True
      obtain calls1 w2 where rec: "handle_tests handle_test dirs w1 = (calls1, w2)"
        by (cases "handle_tests handle_test dirs w1")
      with Cons.prems h Inr True have calls: "calls = (d, Inr []) # calls1" by auto
      show ?thesis
      proof (cases i)
        case 0
        with calls show ?thesis by simp
      next
        case (Suc j)
        with Cons.prems(2) calls have "Suc j < length calls1" by simp
        from Cons.IH [OF rec this] Suc calls show ?thesis by simp
      qed
    qed
  qed
qed

lemma handle_tests_all:
  "handle_tests handle_test dirs w = (calls, w') \<Longrightarrow> \<forall>c \<in> set calls. snd c = Inr [] \<Longrightarrow>
     length calls = length dirs"
proof (induction dirs arbitrary: w calls w')
  case Nil
  then show ?case by simp
next
  case (Cons d dirs)
  obtain r w1 where h: "handle_test d w = (r, w1)" by (cases "handle_test d w")
  show ?case
  proof (cases r)
    case (Inl e)
    with Cons.prems h show ?thesis by auto
  next
    case (Inr report_paths)
    show ?thesis
    proof (cases "report_paths = []")
      case False
      with Cons.prems h Inr show ?thesis by auto
    next
      case True
      obtain calls1 w2 where rec: "handle_tests handle_test dirs w1 = (calls1, w2)"
        by (cases "handle_tests handle_test dirs w1")
      with Cons.prems h Inr True have calls: "calls = (d, Inr []) # calls1" by auto
      with Cons.prems(2) have "\<forall>c \<in> set calls1. snd c = Inr []" by simp
      from Cons.IH [OF rec this] calls show ?thesis by simp
    qed
  qed
qed

text \<open>
  C7. In one iteration, \<open>handle_test\<close> is called on the six sibling tests in the order
  no_opt, opt_O, opt_Os, opt_rand1, opt_rand2, opt_rand3: the calls made are an initial
  part of that list. A call that returns a nonempty list of report paths is the last
  call of the iteration, and when no call reports or raises, all six are made.
\<close>

theorem handle_tests_short_circuit:
  "handle_tests handle_test (test_dirs test_dir test_name) w = (calls, w') \<Longrightarrow>
     map fst calls = take (length calls) (test_dirs test_dir test_name)
     \<and> (\<forall>i. i < length calls \<and> reported (snd (calls ! i)) \<longrightarrow> Suc i = length calls)
     \<and> ((\<forall>c \<in> set calls. snd c = Inr []) \<longrightarrow> length calls = 6)"
proof (intro conjI allI impI)
  assume run: "handle_tests handle_test (test_dirs test_dir test_name) w = (calls, w')"
  show "map fst calls = take (length calls) (test_dirs test_dir test_name)"
    using run by (rule handle_tests_order)
  {
    fix i
    assume i: "i < length calls \<and> reported (snd (calls ! i))"
    show "Suc i = length calls"
    proof (rule ccontr)
      assume "Suc i \<noteq> length calls"
      with i have "Suc i < length calls" by simp
      with run have "snd (calls ! i) = Inr []" by (rule handle_tests_stop)
      with i show False by (simp add: reported_def)
    qed
  }
  {
    assume "\<forall>c \<in> set calls. snd c = Inr []"
    with run have "length calls = length (test_dirs test_dir test_name)"
      by (rule handle_tests_all)
    then show "length calls = 6" by (simp add: test_dirs_def)
  }
qed

theorem handle_tests_short_circuit_witness:
  "handle_tests
     (\<lambda>d (w::nat). (if d = ''t/x_opt_O_test'' then Inr [''reports/crashes/sig/x_opt_O_test_d'']
                    else Inr [], Suc w))
     (test_dirs ''t'' ''x'') 0
     = ([(''t/x_no_opt_test'', Inr []),
         (''t/x_opt_O_test'', Inr [''reports/crashes/sig/x_opt_O_test_d''])], 2)
   \<and> (1::nat) < length [(''t/x_no_opt_test'', Inr [] :: error + string list),
         (''t/x_opt_O_test'', Inr [''reports/crashes/sig/x_opt_O_test_d''])]
   \<and> reported (snd ([(''t/x_no_opt_test'', Inr [] :: error + string list),
         (''t/x_opt_O_test'', Inr [''reports/crashes/sig/x_opt_O_test_d''])] ! 1))
   \<and> map fst [(''t/x_no_opt_test'', Inr [] :: error + string list),
         (''t/x_opt_O_test'', Inr [''reports/crashes/sig/x_opt_O_test_d''])]
       = take 2 (test_dirs ''t'' ''x'')"
  using handle_tests_short_circuit
    [of "\<lambda>d (w::nat). (if d = ''t/x_opt_O_test'' then Inr [''reports/crashes/sig/x_opt_O_test_d'']
                       else Inr [], Suc w)"
        "''t''" "''x''" 0
        "[(''t/x_no_opt_test'', Inr []),
          (''t/x_opt_O_test'', Inr [''reports/crashes/sig/x_opt_O_test_d''])]" 2]
  by (simp add: test_dirs_def path_join_def reported_def)

section \<open>Resolving a binary by name\<close>

lemma get_binary_by_name_from_list_find:
  "get_binary_by_name_from_list nm bl
     = (case List.find (\<lambda>b. name b = nm) bl of None \<Rightarrow> Inl BinaryNotFound | Some b \<Rightarrow> Inr b)"
  by (induction bl) simp_all

lemma get_binary_path_error:
  "fst (get_binary_path inner_file_path m b) = Inl e \<Longrightarrow> e = BinaryPathNotFound b"
  by (auto simp: get_binary_path_def Let_def split: option.splits prod.splits)

text \<open>
  C8. \<open>get_binary_path_by_name\<close> raises \<open>BinaryNotFound\<close> exactly when no descriptor of
  the override list has the requested name; otherwise it resolves the first descriptor
  of the list with that name, and returns its path together with the descriptor.
\<close>

theorem get_binary_path_by_name_first:
  "(fst (get_binary_path_by_name inner_file_path m nm) = Inl BinaryNotFound
      \<longleftrightarrow> (\<forall>b \<in> set (binary_list m). name b \<noteq> nm))
   \<and> (\<forall>b. List.find (\<lambda>b. name b = nm) (binary_list m) = Some b \<longrightarrow>
        get_binary_path_by_name inner_file_path m nm
          = (case get_binary_path inner_file_path m b of
               (Inl e, m') \<Rightarrow> (Inl e, m')
             | (Inr p, m') \<Rightarrow> (Inr \<lparr>info_path = p, info_binary = b\<rparr>, m')))"
proof (intro conjI allI impI)
  show "fst (get_binary_path_by_name inner_file_path m nm) = Inl BinaryNotFound
          \<longleftrightarrow> (\<forall>b \<in> set (binary_list m). name b \<noteq> nm)"
  proof (cases "List.find (\<lambda>b. name b = nm) (binary_list m)")
    case None
    then have "\<forall>b \<in> set (binary_list m). name b \<noteq> nm"
      by (simp add: find_None_iff)
    with None show ?thesis
      by (simp add: get_binary_path_by_name_def get_binary_by_name_def
            get_binary_by_name_from_list_find)
  next
    case (Some b)
    then have ex: "\<exists>b \<in> set (binary_list m). name b = nm"
      by (auto simp: find_Some_iff)
    obtain r m' where g: "get_binary_path inner_file_path m b = (r, m')"
      by (cases "get_binary_path inner_file_path m b")
    have "fst (get_binary_path_by_name inner_file_path m nm) \<noteq> Inl BinaryNotFound"
    proof (cases r)
      case (Inl e)
      with g have "e = BinaryPathNotFound b"
        using get_binary_path_error [of inner_file_path m b e] by simp
      with Some g Inl show ?thesis
        by (simp add: get_binary_path_by_name_def get_binary_by_name_def
              get_binary_by_name_from_list_find)
    next
      case (Inr p)
      with Some g show ?thesis
        by (simp add: get_binary_path_by_name_def get_binary_by_name_def
              get_binary_by_name_from_list_find)
    qed
    with ex show ?thesis by blast
  qed
next
  fix b
  assume "List.find (\<lambda>b. name b = nm) (binary_list m) = Some b"
  then show "get_binary_path_by_name inner_file_path m nm
          = (case get_binary_path inner_file_path m b of
               (Inl e, m') \<Rightarrow> (Inl e, m')
             | (Inr p, m') \<Rightarrow> (Inr \<lparr>info_path = p, info_binary = b\<rparr>, m'))"
    by (simp add: get_binary_path_by_name_def get_binary_by_name_def
          get_binary_by_name_from_list_find)
qed

theorem get_binary_path_by_name_first_witness:
  "(\<exists>b \<in> set (binary_list (new_binary_manager
        [\<lparr>name = ''spirv-opt'', tags = [], path = [], version = ''V1''\<rparr>,
         \<lparr>name = ''spirv-opt'', tags = [], path = [], version = ''V2''\<rparr>]
        ''Linux''
        [(\<lparr>binaries =
            [\<lparr>name = ''spirv-opt'', tags = [''Linux''], path = ''v2/spirv-opt'',
               version = ''V2''\<rparr>,
             \<lparr>name = ''spirv-opt'', tags = [''Linux''], path = ''v1/spirv-opt'',
               version = ''V1''\<rparr>]\<rparr>, ''//binaries/a'')])). name b = ''spirv-opt'')
   \<and> List.find (\<lambda>b. name b = ''spirv-opt'') (binary_list (new_binary_manager
        [\<lparr>name = ''spirv-opt'', tags = [], path = [], version = ''V1''\<rparr>,
         \<lparr>name = ''spirv-opt'', tags = [], path = [], version = ''V2''\<rparr>]
        ''Linux''
        [(\<lparr>binaries =
            [\<lparr>name = ''spirv-opt'', tags = [''Linux''], path = ''v2/spirv-opt'',
               version = ''V2''\<rparr>,
             \<lparr>name = ''spirv-opt'', tags = [''Linux''], path = ''v1/spirv-opt'',
               version = ''V1''\<rparr>]\<rparr>, ''//binaries/a'')]))
       = Some \<lparr>name = ''spirv-opt'', tags = [], path = [], version = ''V1''\<rparr>
   \<and> fst (get_binary_path_by_name (\<lambda>p a. a @ ''/'' @ p) (new_binary_manager
        [\<lparr>name = ''spirv-opt'', tags = [], path = [], version = ''V1''\<rparr>,
         \<lparr>name = ''spirv-opt'', tags = [], path = [], version = ''V2''\<rparr>]
        ''Linux''
        [(\<lparr>binaries =
            [\<lparr>name = ''spirv-opt'', tags = [''Linux''], path = ''v2/spirv-opt'',
               version = ''V2''\<rparr>,
             \<lparr>name = ''spirv-opt'', tags = [''Linux''], path = ''v1/spirv-opt'',
               version = ''V1''\<rparr>]\<rparr>, ''//binaries/a'')]) ''spirv-opt'')
       = Inr \<lparr>info_path = ''//binaries/a/v1/spirv-opt'',
              info_binary = \<lparr>name = ''spirv-opt'', tags = [], path = [], version = ''V1''\<rparr>\<rparr>
   \<and> fst (get_binary_path_by_name (\<lambda>p a. a @ ''/'' @ p) (new_binary_manager
        [\<lparr>name = ''spirv-opt'', tags = [], path = [], version = ''V1''\<rparr>,
         \<lparr>name = ''spirv-opt'', tags = [], path = [], version = ''V2''\<rparr>]
        ''Linux''
        [(\<lparr>binaries =
            [\<lparr>name = ''spirv-opt'', tags = [''Linux''], path = ''v2/spirv-opt'',
               version = ''V2''\<rparr>,
             \<lparr>name = ''spirv-opt'', tags = [''Linux''], path = ''v1/spirv-opt'',
               version = ''V1''\<rparr>]\<rparr>, ''//binaries/a'')]) ''spirv-opt'')
       \<noteq> Inl BinaryNotFound"
  using get_binary_path_by_name_first
    [of "\<lambda>p a. a @ ''/'' @ p" "new_binary_manager
        [\<lparr>name = ''spirv-opt'', tags = [], path = [], version = ''V1''\<rparr>,
         \<lparr>name = ''spirv-opt'', tags = [], path = [], version = ''V2''\<rparr>]
        ''Linux''
        [(\<lparr>binaries =
            [\<lparr>name = ''spirv-opt'', tags = [''Linux''], path = ''v2/spirv-opt'',
               version = ''V2''\<rparr>,
             \<lparr>name = ''spirv-opt'', tags = [''Linux''], path = ''v1/spirv-opt'',
               version = ''V1''\<rparr>]\<rparr>, ''//binaries/a'')]" "''spirv-opt''"]
  by (simp add: new_binary_manager_def get_binary_path_def Let_def)

section \<open>Resolving a descriptor against the catalog\<close>

lemma find_artifact_binary_find:
  "find_artifact_binary b (insert pf (set (tags b))) bs = List.find (answers pf b) bs"
  by (induction bs) (auto simp: answers_def)

lemma find_pairs:
  "List.find (\<lambda>(B, artifact_path). P B) (map (\<lambda>B. (B, ap)) bs @ rest)
     = (case List.find P bs of
          Some B \<Rightarrow> Some (B, ap)
        | None \<Rightarrow> List.find (\<lambda>(B, artifact_path). P B) rest)"
  by (induction bs) simp_all

lemma find_in_artifacts_find:
  "find_in_artifacts b (insert pf (set (tags b))) arts
     = List.find (\<lambda>(B, artifact_path). answers pf b B) (catalog_binaries arts)"
proof (induction arts)
  case Nil
  show ?case by (simp add: catalog_binaries_def)
next
  case (Cons a arts)
  obtain aset ap where a: "a = (aset, ap)" by (cases a)
  from Cons have IH: "find_in_artifacts b (insert pf (set (tags b))) arts
     = List.find (\<lambda>(B, artifact_path). answers pf b B) (catalog_binaries arts)" .
  have "catalog_binaries (a # arts) = map (\<lambda>B. (B, ap)) (binaries aset) @ catalog_binaries arts"
    using a by (simp add: catalog_binaries_def)
  then show ?case
    using a IH by (simp add: find_artifact_binary_find find_pairs split: option.split)
qed

lemma get_binary_path_uncached:
  "resolved_paths m b = None \<Longrightarrow>
     fst (get_binary_path inner_file_path m b) = resolution inner_file_path m b"
  by (simp add: get_binary_path_def resolution_def first_catalog_match_def
        find_in_artifacts_find Let_def split: option.splits prod.splits)

lemma get_binary_path_cached:
  "resolved_paths m b = Some p \<Longrightarrow> get_binary_path inner_file_path m b = (Inr p, m)"
  by (simp add: get_binary_path_def)

lemma resolution_unchanged:
  "platform m' = platform m \<Longrightarrow> binary_artifacts m' = binary_artifacts m \<Longrightarrow>
     resolution inner_file_path m' D = resolution inner_file_path m D"
  by (simp add: resolution_def first_catalog_match_def)

lemma get_binary_path_keeps:
  "platform (snd (get_binary_path inner_file_path m b)) = platform m
   \<and> binary_artifacts (snd (get_binary_path inner_file_path m b)) = binary_artifacts m"
  by (simp add: get_binary_path_def Let_def split: option.splits prod.splits)

lemma cache_consistent_get:
  assumes "cache_consistent inner_file_path m"
  shows "cache_consistent inner_file_path (snd (get_binary_path inner_file_path m b))"
proof (cases "resolved_paths m b")
  case (Some p)
  with assms show ?thesis by (simp add: get_binary_path_cached)
next
  case None
  show ?thesis
  proof (cases "find_in_artifacts b (set (tags b) \<union> {platform m}) (binary_artifacts m)")
    case None': None
    with None assms show ?thesis by (simp add: get_binary_path_def)
  next
    case (Some hit)
    obtain B ap where hit: "hit = (B, ap)" by (cases hit)
    let ?p = "inner_file_path (path B) ap"
    let ?m' = "m\<lparr>resolved_paths := (resolved_paths m)(b \<mapsto> ?p)\<rparr>"
    from None Some hit have m': "snd (get_binary_path inner_file_path m b) = ?m'"
      by (simp add: get_binary_path_def Let_def)
    from None Some hit have res: "resolution inner_file_path m b = Inr ?p"
      using get_binary_path_uncached [of m b inner_file_path]
      by (simp add: get_binary_path_def Let_def)
    have same: "resolution inner_file_path ?m' D = resolution inner_file_path m D" for D
      by (rule resolution_unchanged) simp_all
    from assms res have "cache_consistent inner_file_path ?m'"
      unfolding cache_consistent_def by (auto simp: same)
    with m' show ?thesis by simp
  qed
qed

lemma reachable_cache_consistent:
  "reachable inner_file_path m \<Longrightarrow> cache_consistent inner_file_path m"
proof (induction rule: reachable.induct)
  case (reachable_new bl pf arts)
  show ?case by (simp add: cache_consistent_def new_binary_manager_def)
next
  case (reachable_get m b)
  from reachable_get.IH show ?case by (rule cache_consistent_get)
next
  case (reachable_child m bl)
  have "resolution inner_file_path (get_child_binary_manager m bl) D
          = resolution inner_file_path m D" for D
    by (rule resolution_unchanged) (simp_all add: get_child_binary_manager_def)
  with reachable_child.IH show ?case
    by (simp add: cache_consistent_def get_child_binary_manager_def)
qed

text \<open>
  C4. In every manager that a program can hold (a new one, one after calls of
  \<open>get_binary_path\<close>, a child of one), \<open>get_binary_path\<close> on a descriptor \<open>D\<close> returns the
  resolved path of the first catalog binary, in catalog order, whose name and version
  are those of \<open>D\<close> and whose tags include the tags of \<open>D\<close> and the current platform;
  when the catalog has no such binary it raises \<open>BinaryPathNotFound\<close>.
\<close>

theorem get_binary_path_resolution:
  "reachable inner_file_path m \<Longrightarrow>
     fst (get_binary_path inner_file_path m D) = resolution inner_file_path m D"
proof -
  assume "reachable inner_file_path m"
  then have cc: "cache_consistent inner_file_path m" by (rule reachable_cache_consistent)
  show ?thesis
  proof (cases "resolved_paths m D")
    case None
    then show ?thesis by (rule get_binary_path_uncached)
  next
    case (Some p)
    with cc have "resolution inner_file_path m D = Inr p" by (simp add: cache_consistent_def)
    with Some show ?thesis by (simp add: get_binary_path_cached)
  qed
qed


theorem get_binary_path_resolution_witness:
  "reachable (\<lambda>p a. a @ ''/'' @ p)
     (new_binary_manager [] ''Linux''
        [(\<lparr>binaries =
            [\<lparr>name = ''spirv-opt'', tags = [''Linux'', ''x64'', ''Release''],
               path = ''rel/spirv-opt'', version = ''V1''\<rparr>,
             \<lparr>name = ''spirv-opt'', tags = [''Linux'', ''x64'', ''Debug''],
               path = ''dbg/spirv-opt'', version = ''V1''\<rparr>]\<rparr>, ''//binaries/a'')])
   \<and> fst (get_binary_path (\<lambda>p a. a @ ''/'' @ p)
       (new_binary_manager [] ''Linux''
        [(\<lparr>binaries =
            [\<lparr>name = ''spirv-opt'', tags = [''Linux'', ''x64'', ''Release''],
               path = ''rel/spirv-opt'', version = ''V1''\<rparr>,
             \<lparr>name = ''spirv-opt'', tags = [''Linux'', ''x64'', ''Debug''],
               path = ''dbg/spirv-opt'', version = ''V1''\<rparr>]\<rparr>, ''//binaries/a'')])
       \<lparr>name = ''spirv-opt'', tags = [''Debug''], path = [], version = ''V1''\<rparr>)
     = Inr ''//binaries/a/dbg/spirv-opt''"
  using get_binary_path_resolution
    [OF reachable_new,
     of "\<lambda>p a. a @ ''/'' @ p" "[]" "''Linux''"
        "[(\<lparr>binaries =
            [\<lparr>name = ''spirv-opt'', tags = [''Linux'', ''x64'', ''Release''],
               path = ''rel/spirv-opt'', version = ''V1''\<rparr>,
             \<lparr>name = ''spirv-opt'', tags = [''Linux'', ''x64'', ''Debug''],
               path = ''dbg/spirv-opt'', version = ''V1''\<rparr>]\<rparr>, ''//binaries/a'')]"
        "\<lparr>name = ''spirv-opt'', tags = [''Debug''], path = [], version = ''V1''\<rparr>"]
    reachable_new [of "\<lambda>p a. a @ ''/'' @ p" "[]" "''Linux''"
        "[(\<lparr>binaries =
            [\<lparr>name = ''spirv-opt'', tags = [''Linux'', ''x64'', ''Release''],
               path = ''rel/spirv-opt'', version = ''V1''\<rparr>,
             \<lparr>name = ''spirv-opt'', tags = [''Linux'', ''x64'', ''Debug''],
               path = ''dbg/spirv-opt'', version = ''V1''\<rparr>]\<rparr>, ''//binaries/a'')]"]
  by (simp add: resolution_def first_catalog_match_def catalog_binaries_def answers_def
        new_binary_manager_def)

section \<open>Adding a test to a must-pass file is idempotent on terminated lines\<close>




































lemma sorted_line_at_position:
  assumes "sorted S" and "w \<in> set S"
  shows "line_at_position w S"
proof -
  define B where "B = takeWhile (\<lambda>l. l < w) S"
  define C where "C = dropWhile (\<lambda>l. l < w) S"
  have S: "S = B @ C" by (simp add: B_def C_def)
  have "\<forall>l \<in> set B. l < w" unfolding B_def by (auto dest: set_takeWhileD)
  with assms(2) S have wC: "w \<in> set C" by auto
  then obtain c C' where C: "C = c # C'" by (cases C) auto
  have "\<not> c < w" using C hd_dropWhile [of "\<lambda>l. l < w" S] unfolding C_def by auto
  moreover from assms(1) S C wC have "c \<le> w" by (auto simp: sorted_append)
  ultimately have "c = w" by simp
  with C show ?thesis by (simp add: line_at_position_def C_def)
qed

lemma with_line_sorted: "sorted S \<Longrightarrow> sorted (with_line w S)"
  by (simp add: with_line_def sorted_insort)





lemma must_pass_line_feed_name_example:
  "add_amber_test_to_must_pass (''a'' @ [CHR 0x0A] @ ''b'')
     (add_amber_test_to_must_pass (''a'' @ [CHR 0x0A] @ ''b'') [])
     \<noteq> add_amber_test_to_must_pass (''a'' @ [CHR 0x0A] @ ''b'') []"
  by code_simp

lemma must_pass_carriage_return_name_example:
  "add_amber_test_to_must_pass (''a'' @ [CHR 0x0D] @ ''b'')
     (add_amber_test_to_must_pass (''a'' @ [CHR 0x0D] @ ''b'') [])
     \<noteq> add_amber_test_to_must_pass (''a'' @ [CHR 0x0D] @ ''b'') []"
  by code_simp




section \<open>The shape of a signature\<close>

lemma ascii_word_is_word: "is_ascii_word c \<Longrightarrow> is_word c"
  by (simp add: is_word_def)

lemma word_ascii: "is_word c \<Longrightarrow> code c < 128 \<Longrightarrow> is_ascii_word c"
  by (auto simp: is_word_def)

lemma constants_ok:
  "result_ok L ''compile_error''" "result_ok L ''link_error''"
  "result_ok L ''pipeline_failure''" "result_ok L ''Resource_deadlock_would_occur''"
  "result_ok L ''no_signature''" "result_ok L ''amber_ndk''"
  by (simp_all add: result_ok_def is_word_def is_ascii_word_def code_def)

lemma underscore_ascii_word: "is_ascii_word (CHR ''_'')"
  by (simp add: is_ascii_word_def code_def)

lemma replace_non_word_ok: "set g \<subseteq> set L \<Longrightarrow> result_ok L (replace_non_word g)"
proof -
  assume sub: "set g \<subseteq> set L"
  have "is_word c \<and> (c \<in> set L \<or> is_ascii_word c)" if "c \<in> set (replace_non_word g)" for c
  proof -
    from that obtain d where d: "d \<in> set g" "c = (if is_word d then d else CHR ''_'')"
      by (auto simp: replace_non_word_def)
    show ?thesis
    proof (cases "is_word d")
      case True
      with d sub show ?thesis by auto
    next
      case False
      with d have "c = CHR ''_''" by simp
      with underscore_ascii_word show ?thesis by (simp add: ascii_word_is_word)
    qed
  qed
  then show ?thesis by (simp add: result_ok_def)
qed

lemma remove_numbers_subset: "set (remove_numbers g) \<subseteq> set g"
  by (auto simp: remove_numbers_def)

lemma slice_to_subset: "set (slice_to s k) \<subseteq> set s"
  by (auto simp: slice_to_def dest: in_set_takeD)

lemma slice_to_ok: "result_ok L g \<Longrightarrow> result_ok L (slice_to g k)"
  using slice_to_subset [of g k] by (auto simp: result_ok_def)

lemma slice_to_length: "0 \<le> k \<Longrightarrow> length (slice_to s k) \<le> nat k"
  by (simp add: slice_to_def)

lemma first_match_some:
  "first_match m s = Some g \<Longrightarrow> \<exists>t. set t \<subseteq> set s \<and> m t = Some g"
proof (induction s)
  case Nil
  then show ?case by auto
next
  case (Cons c cs)
  show ?case
  proof (cases "m (c # cs)")
    case None
    with Cons obtain t where "set t \<subseteq> set cs" "m t = Some g" by auto
    then have "set t \<subseteq> set (c # cs) \<and> m t = Some g" by auto
    then show ?thesis by blast
  next
    case (Some a)
    with Cons.prems have "m (c # cs) = Some g" by simp
    then show ?thesis by blast
  qed
qed

lemma first_line_some: "first_line f ls = Some g \<Longrightarrow> \<exists>l \<in> set ls. f l = Some g"
  by (induction ls) (auto split: option.splits)

lemma split_nl_chars: "l \<in> set (split_nl s) \<Longrightarrow> set l \<subseteq> set s"
proof (induction s arbitrary: l)
  case Nil
  then show ?case by simp
next
  case (Cons c cs)
  then show ?case by (fastforce split: if_splits list.splits)
qed

lemma match_spirv_opt_error_sub:
  "match_spirv_opt_error line = Some g \<Longrightarrow> set g \<subseteq> set line"
  by (auto simp: match_spirv_opt_error_def Let_def split: if_splits
        dest!: set_takeWhileD in_set_dropD set_dropWhileD)

lemma match_amber_error_at_sub: "match_amber_error_at s = Some g \<Longrightarrow> set g \<subseteq> set s"
  by (auto simp: match_amber_error_at_def Let_def split: if_splits list.splits
        dest!: set_takeWhileD in_set_dropD set_dropWhileD)

lemma match_glslang_error_at_sub: "match_glslang_error_at s = Some g \<Longrightarrow> set g \<subseteq> set s"
  by (auto simp: match_glslang_error_at_def Let_def split: if_splits
        dest!: set_takeWhileD in_set_dropD set_dropWhileD)

lemma match_cpp_function_at_word:
  "match_cpp_function_at s = Some g \<Longrightarrow> g \<noteq> [] \<and> (\<forall>c \<in> set g. is_word c)"
  by (auto simp: match_cpp_function_at_def Let_def split: if_splits dest: set_takeWhileD)

lemma match_c_function_at_word:
  "match_c_function_at s = Some g \<Longrightarrow> g \<noteq> [] \<and> (\<forall>c \<in> set g. is_word c)"
  by (auto simp: match_c_function_at_def Let_def split: if_splits dest: set_takeWhileD)

lemma match_cpp_function_at_sub: "match_cpp_function_at s = Some g \<Longrightarrow> set g \<subseteq> set s"
  by (auto simp: match_cpp_function_at_def Let_def split: if_splits
        dest!: set_takeWhileD in_set_dropD)

lemma match_c_function_at_sub: "match_c_function_at s = Some g \<Longrightarrow> set g \<subseteq> set s"
  by (auto simp: match_c_function_at_def Let_def split: if_splits
        dest!: set_takeWhileD in_set_dropD)

lemma startswith_hd: "startswith v [c] \<Longrightarrow> c \<in> set v"
  by (cases v) auto

lemma frame_tail_sub: "frame_tail t = Some g \<Longrightarrow> g \<noteq> [] \<and> set g \<subseteq> set t"
proof -
  assume a: "frame_tail t = Some g"
  let ?u = "drop 1 t"
  let ?v = "dropWhile (\<lambda>c. c \<noteq> CHR ''/'' \<and> c \<noteq> CHR ''('') ?u"
  let ?a = "takeWhile (\<lambda>c. c \<noteq> CHR ''/'' \<and> c \<noteq> CHR ''('') ?u"
  let ?b = "takeWhile (\<lambda>c. c \<noteq> CHR '')'' \<and> c \<noteq> CHR ''+'') (drop 1 ?v)"
  from a have g: "g = ?a @ CHR ''('' # ?b" and v: "startswith ?v ''(''"
    by (auto simp: frame_tail_def Let_def split: if_splits)
  have vt: "set ?v \<subseteq> set t" by (auto dest!: set_dropWhileD in_set_dropD)
  from v have "CHR ''('' \<in> set ?v" by (rule startswith_hd)
  with vt have p: "CHR ''('' \<in> set t" by auto
  have "set ?a \<subseteq> set t" by (auto dest!: set_takeWhileD in_set_dropD)
  moreover have "set ?b \<subseteq> set t" using vt by (auto dest!: set_takeWhileD in_set_dropD)
  ultimately show ?thesis using g p by auto
qed

lemma dot_star_sub: "dot_star rest k = Some g \<Longrightarrow> g \<noteq> [] \<and> set g \<subseteq> set rest"
proof (induction k)
  case 0
  then show ?case by (simp add: frame_tail_sub)
next
  case (Suc k)
  show ?case
  proof (cases "frame_tail (drop (Suc k) rest)")
    case None
    with Suc show ?thesis by simp
  next
    case (Some a)
    with Suc.prems have "frame_tail (drop (Suc k) rest) = Some g" by simp
    then have "g \<noteq> [] \<and> set g \<subseteq> set (drop (Suc k) rest)" by (rule frame_tail_sub)
    then show ?thesis by (auto dest: in_set_dropD)
  qed
qed

lemma match_catchsegv_at_sub:
  "match_catchsegv_at s = Some g \<Longrightarrow> g \<noteq> [] \<and> set g \<subseteq> set s"
proof -
  assume "match_catchsegv_at s = Some g"
  then obtain k where "dot_star (drop 11 s) k = Some g"
    by (auto simp: match_catchsegv_at_def Let_def split: if_splits)
  then have "g \<noteq> [] \<and> set g \<subseteq> set (drop 11 s)" by (rule dot_star_sub)
  then show ?thesis by (auto dest: in_set_dropD)
qed

lemma result_ok_word_sub:
  "\<forall>c \<in> set g. is_word c \<Longrightarrow> set g \<subseteq> set L \<Longrightarrow> result_ok L g"
  by (auto simp: result_ok_def)

lemma slice_from_subset: "set (slice_from s k) \<subseteq> set s"
  by (auto simp: slice_from_def dest: in_set_dropD)

lemma normalised_ok:
  "set grp \<subseteq> set L \<Longrightarrow> result_ok L (replace_non_word (remove_numbers grp))"
  using remove_numbers_subset [of grp] by (intro replace_non_word_ok) auto

lemma rule_spirv_opt_ok:
  assumes "rule_spirv_opt L = Some g"
  shows "result_ok L g \<and> length g \<le> 20"
proof -
  from assms have "first_line spirv_opt_line (split_nl L) = Some g"
    by (simp add: rule_spirv_opt_def split: if_splits)
  then obtain l where l: "l \<in> set (split_nl L)" "spirv_opt_line l = Some g"
    by (auto dest: first_line_some)
  then obtain grp where grp: "match_spirv_opt_error l = Some grp"
    and g: "g = slice_to (replace_non_word (remove_numbers grp)) 20"
    by (auto simp: spirv_opt_line_def split: option.splits)
  from grp have "set grp \<subseteq> set l" by (rule match_spirv_opt_error_sub)
  with l(1) have "set grp \<subseteq> set L" using split_nl_chars [of l L] by auto
  then have "result_ok L (replace_non_word (remove_numbers grp))" by (rule normalised_ok)
  then have "result_ok L g" unfolding g by (rule slice_to_ok)
  moreover have "length g \<le> 20" unfolding g using slice_to_length [of 20] by simp
  ultimately show ?thesis by simp
qed

lemma rule_amber_ok:
  assumes "rule_amber L = Some g"
  shows "result_ok L g"
proof -
  from assms have "first_line amber_line (split_nl L) = Some g"
    by (simp add: rule_amber_def split: if_splits)
  then obtain l where l: "l \<in> set (split_nl L)" "amber_line l = Some g"
    by (auto dest: first_line_some)
  then obtain grp where grp: "first_match match_amber_error_at l = Some grp"
    and g: "g = replace_non_word (remove_numbers grp)"
    by (auto simp: amber_line_def split: option.splits)
  from first_match_some [OF grp] obtain t where "set t \<subseteq> set l" "match_amber_error_at t = Some grp"
    by blast
  then have "set grp \<subseteq> set l" using match_amber_error_at_sub [of t grp] by auto
  with l(1) have "set grp \<subseteq> set L" using split_nl_chars [of l L] by auto
  then show ?thesis unfolding g by (rule normalised_ok)
qed

lemma rule_glslang_ok:
  assumes "rule_glslang L = Some g"
  shows "result_ok L g"
proof -
  from assms have "first_line glslang_line (split_nl L) = Some g"
    by (simp add: rule_glslang_def split: if_splits)
  then obtain l where l: "l \<in> set (split_nl L)" "glslang_line l = Some g"
    by (auto dest: first_line_some)
  then obtain grp where grp: "first_match match_glslang_error_at l = Some grp"
    and g: "g = replace_non_word (remove_numbers grp)"
    by (auto simp: glslang_line_def split: option.splits)
  from first_match_some [OF grp] obtain t where "set t \<subseteq> set l" "match_glslang_error_at t = Some grp"
    by blast
  then have "set grp \<subseteq> set l" using match_glslang_error_at_sub [of t grp] by auto
  with l(1) have "set grp \<subseteq> set L" using split_nl_chars [of l L] by auto
  then show ?thesis unfolding g by (rule normalised_ok)
qed

lemma first_match_cpp_ok:
  assumes "first_match match_cpp_function_at s = Some g" and "set s \<subseteq> set L"
  shows "result_ok L g \<and> g \<noteq> []"
proof -
  from first_match_some [OF assms(1)] obtain t where t: "set t \<subseteq> set s"
    "match_cpp_function_at t = Some g" by blast
  from t(2) have "g \<noteq> [] \<and> (\<forall>c \<in> set g. is_word c)" by (rule match_cpp_function_at_word)
  moreover from t assms(2) have "set g \<subseteq> set L" using match_cpp_function_at_sub [of t g] by auto
  ultimately show ?thesis by (simp add: result_ok_word_sub)
qed

lemma first_match_c_ok:
  assumes "first_match match_c_function_at s = Some g" and "set s \<subseteq> set L"
  shows "result_ok L g \<and> g \<noteq> []"
proof -
  from first_match_some [OF assms(1)] obtain t where t: "set t \<subseteq> set s"
    "match_c_function_at t = Some g" by blast
  from t(2) have "g \<noteq> [] \<and> (\<forall>c \<in> set g. is_word c)" by (rule match_c_function_at_word)
  moreover from t assms(2) have "set g \<subseteq> set L" using match_c_function_at_sub [of t g] by auto
  ultimately show ?thesis by (simp add: result_ok_word_sub)
qed

lemma pc_lines_ok:
  "pc_lines ls = Some g \<Longrightarrow> \<forall>l \<in> set ls. set l \<subseteq> set L \<Longrightarrow> result_ok L g \<and> g \<noteq> []"
proof (induction ls)
  case Nil
  then show ?case by simp
next
  case (Cons line ls)
  show ?case
  proof (cases "str_find line ''#00 pc'' = - 1")
    case True
    with Cons show ?thesis by simp
  next
    case False
    define line' where "line' = slice_from line (str_find line ''#00 pc'')"
    from Cons.prems(2) have sub: "set line' \<subseteq> set L"
      unfolding line'_def using slice_from_subset [of line] by auto
    show ?thesis
    proof (cases "str_find line' ''/amber_ndk'' \<noteq> - 1")
      case True
      with False Cons.prems(1) have "g = ''amber_ndk''" by (simp add: Let_def line'_def)
      then show ?thesis by (simp add: constants_ok)
    next
      case no_ndk: False
      show ?thesis
      proof (cases "first_match match_cpp_function_at line'")
        case (Some a)
        with False no_ndk Cons.prems(1) have "first_match match_cpp_function_at line' = Some g"
          by (simp add: Let_def line'_def)
        then show ?thesis using sub by (rule first_match_cpp_ok)
      next
        case None
        with False no_ndk Cons.prems(1) have "first_match match_c_function_at line' = Some g"
          by (simp add: Let_def line'_def split: option.splits)
        then show ?thesis using sub by (rule first_match_c_ok)
      qed
    qed
  qed
qed

lemma rule_pc_ok:
  assumes "rule_pc L = Some g"
  shows "result_ok L g \<and> g \<noteq> []"
proof -
  from assms have "pc_lines (split_nl L) = Some g" by (simp add: rule_pc_def split: if_splits)
  moreover have "\<forall>l \<in> set (split_nl L). set l \<subseteq> set L" by (simp add: split_nl_chars)
  ultimately show ?thesis by (rule pc_lines_ok)
qed

lemma replace_non_word_length: "length (replace_non_word g) = length g"
  by (simp add: replace_non_word_def)

lemma rule_catchsegv_ok:
  assumes "rule_catchsegv L = Some g"
  shows "result_ok L g \<and> g \<noteq> [] \<and> length g \<le> 50"
proof -
  from assms obtain grp where grp: "first_match match_catchsegv_at L = Some grp"
    and g: "g = slice_to (replace_non_word grp) 50"
    by (auto simp: rule_catchsegv_def split: if_splits option.splits)
  from first_match_some [OF grp] obtain t where t: "set t \<subseteq> set L"
    "match_catchsegv_at t = Some grp" by blast
  from t(2) have m: "grp \<noteq> [] \<and> set grp \<subseteq> set t" by (rule match_catchsegv_at_sub)
  with t(1) have "set grp \<subseteq> set L" by auto
  then have "result_ok L (replace_non_word grp)" by (rule replace_non_word_ok)
  then have "result_ok L g" unfolding g by (rule slice_to_ok)
  moreover have "length g \<le> 50" unfolding g using slice_to_length [of 50] by simp
  moreover from m have "g \<noteq> []"
    unfolding g by (cases grp) (simp_all add: slice_to_def replace_non_word_def)
  ultimately show ?thesis by simp
qed

lemma signature_cases:
  "get_signature_from_log_contents L \<in>
     {''compile_error'', ''link_error'', ''pipeline_failure'',
      ''Resource_deadlock_would_occur'', ''no_signature''}
   \<or> rule_spirv_opt L = Some (get_signature_from_log_contents L)
   \<or> rule_amber L = Some (get_signature_from_log_contents L)
   \<or> rule_glslang L = Some (get_signature_from_log_contents L)
   \<or> rule_pc L = Some (get_signature_from_log_contents L)
   \<or> rule_catchsegv L = Some (get_signature_from_log_contents L)"
  by (simp add: get_signature_from_log_contents_def split: option.splits)

lemma signature_ok: "result_ok L (get_signature_from_log_contents L)"
  using signature_cases [of L] rule_spirv_opt_ok rule_amber_ok rule_glslang_ok rule_pc_ok
    rule_catchsegv_ok constants_ok(1-5) [of L]
  by (elim disjE) auto

lemma rule_spirv_opt_message:
  "rule_spirv_opt L
     = (case spirv_opt_message L of
          Some m \<Rightarrow> Some (slice_to (replace_non_word (remove_numbers m)) 20)
        | None \<Rightarrow> None)"
proof -
  have "first_line spirv_opt_line ls
      = (case first_line match_spirv_opt_error ls of
           Some m \<Rightarrow> Some (slice_to (replace_non_word (remove_numbers m)) 20)
         | None \<Rightarrow> None)" for ls
    by (induction ls) (simp_all add: spirv_opt_line_def split: option.splits)
  then show ?thesis by (simp add: rule_spirv_opt_def spirv_opt_message_def)
qed

lemma rule_amber_message:
  "rule_amber L
     = (case amber_message L of
          Some m \<Rightarrow> Some (replace_non_word (remove_numbers m)) | None \<Rightarrow> None)"
proof -
  have "first_line amber_line ls
      = (case first_line (first_match match_amber_error_at) ls of
           Some m \<Rightarrow> Some (replace_non_word (remove_numbers m)) | None \<Rightarrow> None)" for ls
    by (induction ls) (simp_all add: amber_line_def split: option.splits)
  then show ?thesis by (simp add: rule_amber_def amber_message_def)
qed

lemma rule_glslang_message:
  "rule_glslang L
     = (case glslang_message L of
          Some m \<Rightarrow> Some (replace_non_word (remove_numbers m)) | None \<Rightarrow> None)"
proof -
  have "first_line glslang_line ls
      = (case first_line (first_match match_glslang_error_at) ls of
           Some m \<Rightarrow> Some (replace_non_word (remove_numbers m)) | None \<Rightarrow> None)" for ls
    by (induction ls) (simp_all add: glslang_line_def split: option.splits)
  then show ?thesis by (simp add: rule_glslang_def glslang_message_def)
qed

lemma remove_numbers_empty: "remove_numbers m = [] \<longleftrightarrow> list_all is_digit m"
  by (simp add: remove_numbers_def filter_empty_conv list_all_iff)

lemma replace_non_word_empty: "replace_non_word g = [] \<longleftrightarrow> g = []"
  by (simp add: replace_non_word_def)

lemma slice_to_empty: "0 < k \<Longrightarrow> slice_to s k = [] \<longleftrightarrow> s = []"
  by (simp add: slice_to_def)

lemma normalised_empty:
  "replace_non_word (remove_numbers m) = [] \<longleftrightarrow> list_all is_digit m"
  "slice_to (replace_non_word (remove_numbers m)) 20 = [] \<longleftrightarrow> list_all is_digit m"
  by (simp_all add: slice_to_empty replace_non_word_empty remove_numbers_empty)

lemma answering_cases:
  "(answering_rule L = 1 \<and> get_signature_from_log_contents L = ''compile_error'')
   \<or> (answering_rule L = 2 \<and> get_signature_from_log_contents L = ''link_error'')
   \<or> (answering_rule L = 3 \<and> get_signature_from_log_contents L = ''pipeline_failure'')
   \<or> (answering_rule L = 4
        \<and> get_signature_from_log_contents L = ''Resource_deadlock_would_occur'')
   \<or> (answering_rule L = 5 \<and> rule_spirv_opt L = Some (get_signature_from_log_contents L))
   \<or> (answering_rule L = 6 \<and> rule_amber L = Some (get_signature_from_log_contents L))
   \<or> (answering_rule L = 7 \<and> rule_glslang L = Some (get_signature_from_log_contents L))
   \<or> (answering_rule L = 8 \<and> rule_pc L = Some (get_signature_from_log_contents L))
   \<or> (answering_rule L = 9 \<and> rule_catchsegv L = Some (get_signature_from_log_contents L))
   \<or> (answering_rule L = 10 \<and> get_signature_from_log_contents L = ''no_signature'')"
  by (simp add: get_signature_from_log_contents_def answering_rule_def split: option.splits)

lemma signature_length_rule:
  assumes "answering_rule L \<noteq> 6" "answering_rule L \<noteq> 7" "answering_rule L \<noteq> 8"
  shows "length (get_signature_from_log_contents L) \<le> 50"
  using answering_cases [of L] assms rule_spirv_opt_ok [of L] rule_catchsegv_ok [of L]
  by (elim disjE) auto

lemma signature_empty_iff:
  "get_signature_from_log_contents L = [] \<longleftrightarrow> digits_only_message L"
proof -
  let ?s = "get_signature_from_log_contents L"
  consider (const) "answering_rule L \<in> {1, 2, 3, 4, 10}" "?s \<noteq> []"
    | (spirv) "answering_rule L = 5" "rule_spirv_opt L = Some ?s"
    | (amber) "answering_rule L = 6" "rule_amber L = Some ?s"
    | (glslang) "answering_rule L = 7" "rule_glslang L = Some ?s"
    | (other) "answering_rule L \<in> {8, 9}" "?s \<noteq> []"
    using answering_cases [of L] rule_pc_ok [of L] rule_catchsegv_ok [of L]
    by (elim disjE) auto
  then show ?thesis
  proof cases
    case const
    then show ?thesis by (auto simp: digits_only_message_def matched_message_def)
  next
    case spirv
    from spirv(2) obtain m where m: "spirv_opt_message L = Some m"
      and s: "?s = slice_to (replace_non_word (remove_numbers m)) 20"
      by (auto simp: rule_spirv_opt_message split: option.splits)
    from spirv(1) m have "digits_only_message L \<longleftrightarrow> list_all is_digit m"
      by (simp add: digits_only_message_def matched_message_def)
    moreover from s have "?s = [] \<longleftrightarrow> list_all is_digit m"
      by (simp only: normalised_empty)
    ultimately show ?thesis by simp
  next
    case amber
    from amber(2) obtain m where m: "amber_message L = Some m"
      and s: "?s = replace_non_word (remove_numbers m)"
      by (auto simp: rule_amber_message split: option.splits)
    from amber(1) m have "digits_only_message L \<longleftrightarrow> list_all is_digit m"
      by (simp add: digits_only_message_def matched_message_def)
    moreover from s have "?s = [] \<longleftrightarrow> list_all is_digit m"
      by (simp only: normalised_empty)
    ultimately show ?thesis by simp
  next
    case glslang
    from glslang(2) obtain m where m: "glslang_message L = Some m"
      and s: "?s = replace_non_word (remove_numbers m)"
      by (auto simp: rule_glslang_message split: option.splits)
    from glslang(1) m have "digits_only_message L \<longleftrightarrow> list_all is_digit m"
      by (simp add: digits_only_message_def matched_message_def)
    moreover from s have "?s = [] \<longleftrightarrow> list_all is_digit m"
      by (simp only: normalised_empty)
    ultimately show ?thesis by simp
  next
    case other
    then show ?thesis by (auto simp: digits_only_message_def matched_message_def)
  qed
qed

lemma signature_unbounded_example:
  "length (get_signature_from_log_contents
     (''0 pass, 1 fail'' @ [CHR 0x0A] @ ''test.amber: 256: '' @ replicate 51 (CHR ''x''))) = 51"
  by code_simp

lemma signature_non_ascii_example:
  "get_signature_from_log_contents (''error: line 0: caf'' @ [CHR 0xE9]) = ''caf'' @ [CHR 0xE9]"
  by code_simp

text \<open>
  C1. The Amber log whose message is \<open>U+00E9\<close> followed by fifty \<open>x\<close> is classified as
  that message, 51 characters long and not ASCII; and the log \<open>error: line 0: 1\<close>,
  whose message has digits only, is classified as the empty string. Neither result
  matches \<open>^[A-Za-z0-9_]{1,50}$\<close>.
\<close>

theorem signature_pattern_counterexample:
  "\<not> valid_signature (get_signature_from_log_contents
       (''0 pass, 1 fail'' @ [CHR 0x0A] @ ''test.amber: 256: '' @ [CHR 0xE9]
          @ replicate 50 (CHR ''x'')))
   \<and> length (get_signature_from_log_contents
       (''0 pass, 1 fail'' @ [CHR 0x0A] @ ''test.amber: 256: '' @ [CHR 0xE9]
          @ replicate 50 (CHR ''x''))) = 51
   \<and> hd (get_signature_from_log_contents
       (''0 pass, 1 fail'' @ [CHR 0x0A] @ ''test.amber: 256: '' @ [CHR 0xE9]
          @ replicate 50 (CHR ''x''))) = CHR 0xE9
   \<and> \<not> valid_signature (get_signature_from_log_contents ''error: line 0: 1'')"
  by code_simp

text \<open>
  C1, as the code has it. For every log text, every character of the signature is a word
  character (\<open>\w\<close>), and for a log of ASCII characters it is one of \<open>[A-Za-z0-9_]\<close>. The
  signature is at most 50 characters long unless it is returned by the Amber rule, the
  glslang rule or the \<open>#00 pc\<close> rule, which return their match uncut. The signature is
  nonempty whenever the rule that returns did not match a message of digits only.
\<close>

theorem signature_shape:
  "(\<forall>c \<in> set (get_signature_from_log_contents L). is_word c)
   \<and> ((\<forall>c \<in> set L. code c < 128)
        \<longrightarrow> list_all is_ascii_word (get_signature_from_log_contents L))
   \<and> (answering_rule L \<noteq> 6 \<and> answering_rule L \<noteq> 7 \<and> answering_rule L \<noteq> 8
        \<longrightarrow> length (get_signature_from_log_contents L) \<le> 50)
   \<and> (\<not> digits_only_message L \<longrightarrow> get_signature_from_log_contents L \<noteq> [])"
proof (intro conjI impI)
  have ok: "result_ok L (get_signature_from_log_contents L)" by (rule signature_ok)
  then show "\<forall>c \<in> set (get_signature_from_log_contents L). is_word c"
    by (simp add: result_ok_def)
  show "list_all is_ascii_word (get_signature_from_log_contents L)"
    if ascii: "\<forall>c \<in> set L. code c < 128"
  proof -
    have "is_ascii_word c" if c: "c \<in> set (get_signature_from_log_contents L)" for c
    proof -
      from ok c have w: "is_word c" and d: "c \<in> set L \<or> is_ascii_word c"
        by (simp_all add: result_ok_def)
      show ?thesis
      proof (cases "c \<in> set L")
        case True
        with ascii have "code c < 128" by simp
        with w show ?thesis by (rule word_ascii)
      next
        case False
        with d show ?thesis by simp
      qed
    qed
    then show ?thesis by (simp add: list_all_iff)
  qed
  show "length (get_signature_from_log_contents L) \<le> 50"
    if "answering_rule L \<noteq> 6 \<and> answering_rule L \<noteq> 7 \<and> answering_rule L \<noteq> 8"
    using that by (intro signature_length_rule) simp_all
  show "get_signature_from_log_contents L \<noteq> []" if "\<not> digits_only_message L"
    using that by (simp add: signature_empty_iff)
qed

theorem signature_shape_witness:
  "list_all (\<lambda>c. code c < 128) ''error: line 0: Module contains 2 unreachable blocks''
   \<and> answering_rule ''error: line 0: Module contains 2 unreachable blocks'' = 5
   \<and> matched_message ''error: line 0: Module contains 2 unreachable blocks''
       = Some ''Module contains 2 unreachable blocks''
   \<and> \<not> digits_only_message ''error: line 0: Module contains 2 unreachable blocks''
   \<and> list_all is_ascii_word (get_signature_from_log_contents
        ''error: line 0: Module contains 2 unreachable blocks'')
   \<and> length (get_signature_from_log_contents
        ''error: line 0: Module contains 2 unreachable blocks'') \<le> 50
   \<and> get_signature_from_log_contents
        ''error: line 0: Module contains 2 unreachable blocks'' \<noteq> []"
proof -
  let ?L = "''error: line 0: Module contains 2 unreachable blocks''"
  have h0: "list_all (\<lambda>c. code c < 128) ?L" by code_simp
  then have h1: "\<forall>c \<in> set ?L. code c < 128" by (simp only: list_all_iff)
  have h2: "answering_rule ?L = 5" by code_simp
  then have h3: "answering_rule ?L \<noteq> 6 \<and> answering_rule ?L \<noteq> 7 \<and> answering_rule ?L \<noteq> 8"
    by simp
  have h4: "matched_message ?L = Some ''Module contains 2 unreachable blocks''" by code_simp
  have h5: "\<not> digits_only_message ?L" by code_simp
  from signature_shape [of ?L] h0 h1 h2 h3 h4 h5 show ?thesis by blast
qed

end
